theory Spec2Isabelle
  imports Main
begin

section \<open>JavaScript values\<close>

text \<open>
  The store of \<^verbatim>\<open>src/demos/zustand/zustand.ts\<close> is generic in its state type. A state
  is modelled as a JavaScript value: a primitive, or a reference to an object of the heap.
  Two values are the same for \<^verbatim>\<open>Object.is\<close> exactly when they are equal as terms of
  \<open>jsval\<close>: primitives compare by value, objects by address. Numbers are the integral
  ones; an object is the map of its own enumerable properties.
\<close>

type_synonym addr = nat

datatype jsval =
    VUndefined
  | VNull
  | VBool bool
  | VNum int
  | VStr string
  | VRef addr

type_synonym obj = "string \<rightharpoonup> jsval"

type_synonym heap = "obj list"

datatype error = TypeError | Thrown jsval

definition Object_is :: "jsval \<Rightarrow> jsval \<Rightarrow> bool" where
  "Object_is a b = (a = b)"

fun typeof :: "jsval \<Rightarrow> string" where
  "typeof VUndefined = ''undefined''"
| "typeof VNull = ''object''"
| "typeof (VBool b) = ''boolean''"
| "typeof (VNum n) = ''number''"
| "typeof (VStr s) = ''string''"
| "typeof (VRef a) = ''object''"

text \<open>The decimal spelling of an index, the property key of a string's character.\<close>

fun index_key :: "nat \<Rightarrow> string" where
  "index_key n =
     (if n < 10 then [char_of (48 + n)]
      else index_key (n div 10) @ [char_of (48 + n mod 10)])"

text \<open>
  The own enumerable properties \<^verbatim>\<open>Object.assign\<close> copies from a source:
  those of the object for a reference, one per character for a string, none for
  \<^verbatim>\<open>undefined\<close>, \<^verbatim>\<open>null\<close>, a boolean or a number.
\<close>

fun own_props :: "heap \<Rightarrow> jsval \<Rightarrow> obj" where
  "own_props h (VRef a) = (if a < length h then h ! a else Map.empty)"
| "own_props h (VStr s) =
     map_of (zip (map index_key [0..<length s]) (map (\<lambda>c. VStr [c]) s))"
| "own_props h v = Map.empty"

text \<open>\<^verbatim>\<open>Object.assign({}, a, b)\<close>: a new object, allocated at the end of the heap.\<close>

definition Object_assign :: "heap \<Rightarrow> jsval \<Rightarrow> jsval \<Rightarrow> jsval \<times> heap" where
  "Object_assign h a b =
     (VRef (length h), h @ [(Map.empty ++ own_props h a) ++ own_props h b])"

section \<open>The store\<close>

text \<open>
  A listener is a function reference, here its identity \<open>lid\<close>. What a listener does
  when it is called with \<open>(state, prevState)\<close> is a list of calls into the store's API
  (or a throw), given by the environment. An updater passed to \<^verbatim>\<open>setState\<close> computes
  the next state from the current one; it may allocate and may throw.
\<close>

type_synonym lid = nat

type_synonym ufun = "jsval \<Rightarrow> heap \<Rightarrow> (error + jsval) \<times> heap"

datatype partial = Value jsval | Updater ufun

datatype action =
    Subscribe lid
  | Unsubscribe lid
  | SetState partial "bool option"
  | Throw jsval

type_synonym listener_env = "lid \<Rightarrow> jsval \<Rightarrow> jsval \<Rightarrow> action list"

text \<open>
  The closure of \<^verbatim>\<open>createStore\<close>: the variable \<^verbatim>\<open>state\<close> and the set
  \<^verbatim>\<open>listeners\<close>, with the heap. A JavaScript \<^verbatim>\<open>Set\<close> is the list of its entries in
  insertion order, where a deleted entry leaves an empty slot (\<open>None\<close>) behind.
  \<open>calls\<close> is the log of the listener calls made so far, with their arguments.
\<close>

record store =
  heap :: heap
  state :: jsval
  listeners :: "lid option list"
  calls :: "(lid \<times> jsval \<times> jsval) list"

definition Set_add :: "lid \<Rightarrow> lid option list \<Rightarrow> lid option list" where
  "Set_add l es = (if Some l \<in> set es then es else es @ [Some l])"

definition Set_delete :: "lid \<Rightarrow> lid option list \<Rightarrow> lid option list" where
  "Set_delete l es = map (\<lambda>e. if e = Some l then None else e) es"

definition getState :: "store \<Rightarrow> jsval" where
  "getState s = state s"

definition subscribe :: "lid \<Rightarrow> store \<Rightarrow> store" where
  "subscribe l s = s\<lparr>listeners := Set_add l (listeners s)\<rparr>"

text \<open>The function \<^verbatim>\<open>subscribe(listener)\<close> returns: \<^verbatim>\<open>() => listeners.delete(listener)\<close>.\<close>

definition unsubscribe :: "lid \<Rightarrow> store \<Rightarrow> store" where
  "unsubscribe l s = s\<lparr>listeners := Set_delete l (listeners s)\<rparr>"

text \<open>\<^verbatim>\<open>typeof partial === 'function' ? partial(state) : partial\<close>\<close>

definition resolve :: "partial \<Rightarrow> store \<Rightarrow> (error + jsval) \<times> store" where
  "resolve p s =
     (case p of
        Value v \<Rightarrow> (Inr v, s)
      | Updater f \<Rightarrow> (case f (state s) (heap s) of (r, h) \<Rightarrow> (r, s\<lparr>heap := h\<rparr>)))"

text \<open>
  \<^verbatim>\<open>state = replace ?? typeof nextState !== 'object' ? nextState
     : Object.assign({}, state, nextState)\<close>.
  The operator \<^verbatim>\<open>??\<close> binds tighter than the conditional, so the test is
  \<^verbatim>\<open>replace ?? (typeof nextState !== 'object')\<close>: \<^verbatim>\<open>replace\<close> itself when it is given,
  the \<^verbatim>\<open>typeof\<close> test when it is absent.
\<close>

definition replaces :: "bool option \<Rightarrow> jsval \<Rightarrow> bool" where
  "replaces replace nextState =
     (case replace of Some b \<Rightarrow> b | None \<Rightarrow> typeof nextState \<noteq> ''object'')"

definition assign_state :: "bool option \<Rightarrow> jsval \<Rightarrow> store \<Rightarrow> store" where
  "assign_state replace nextState s =
     (if replaces replace nextState then s\<lparr>state := nextState\<rparr>
      else (case Object_assign (heap s) (state s) nextState of
              (v, h) \<Rightarrow> s\<lparr>heap := h, state := v\<rparr>))"

text \<open>
  \<^verbatim>\<open>setState\<close>, the pass \<^verbatim>\<open>listeners.forEach((fn) => fn(state, prevState))\<close> from
  entry \<open>i\<close> on, and the body of a listener. A listener may call \<^verbatim>\<open>setState\<close> again
  and may add entries to the set it is called from, so the pass need not end: each
  entry visited takes one unit of fuel, and \<open>None\<close> is a run that needs more.
  \<^verbatim>\<open>forEach\<close> reads the entries at each step, and the callback reads the variable
  \<^verbatim>\<open>state\<close> when it is called. A throw ends the run and keeps the store as it is then.
\<close>

fun setState :: "nat \<Rightarrow> listener_env \<Rightarrow> partial \<Rightarrow> bool option \<Rightarrow> store
      \<Rightarrow> ((error + unit) \<times> store) option"
  and forEach :: "nat \<Rightarrow> listener_env \<Rightarrow> nat \<Rightarrow> jsval \<Rightarrow> store
      \<Rightarrow> ((error + unit) \<times> store) option"
  and run :: "nat \<Rightarrow> listener_env \<Rightarrow> action list \<Rightarrow> store
      \<Rightarrow> ((error + unit) \<times> store) option"
where
  "setState n env p replace s =
     (case resolve p s of
        (Inl e, s1) \<Rightarrow> Some (Inl e, s1)
      | (Inr nextState, s1) \<Rightarrow>
          if \<not> Object_is (state s1) nextState then
            forEach n env 0 (state s1) (assign_state replace nextState s1)
          else Some (Inr (), s1))"
| "forEach 0 env i prevState s =
     (if i < length (listeners s) then None else Some (Inr (), s))"
| "forEach (Suc n) env i prevState s =
     (if i < length (listeners s) then
        (case listeners s ! i of
           None \<Rightarrow> forEach n env (Suc i) prevState s
         | Some fn \<Rightarrow>
             (case run n env (env fn (state s) prevState)
                     (s\<lparr>calls := calls s @ [(fn, state s, prevState)]\<rparr>) of
                None \<Rightarrow> None
              | Some (Inl e, s') \<Rightarrow> Some (Inl e, s')
              | Some (Inr u, s') \<Rightarrow> forEach n env (Suc i) prevState s'))
      else Some (Inr (), s))"
| "run n env [] s = Some (Inr (), s)"
| "run n env (Subscribe l # as) s = run n env as (subscribe l s)"
| "run n env (Unsubscribe l # as) s = run n env as (unsubscribe l s)"
| "run n env (SetState p replace # as) s =
     (case setState n env p replace s of
        None \<Rightarrow> None
      | Some (Inl e, s') \<Rightarrow> Some (Inl e, s')
      | Some (Inr u, s') \<Rightarrow> run n env as s')"
| "run n env (Throw v # as) s = Some (Inl (Thrown v), s)"

declare setState.simps [simp del]

text \<open>
  \<^verbatim>\<open>createStore\<close>: \<^verbatim>\<open>state\<close> starts unassigned (\<^verbatim>\<open>undefined\<close>) and the set of
  listeners empty; then \<^verbatim>\<open>state = createState(setState, getState, api)\<close>. The
  initializer is what it does with the API it is given, then the value it returns,
  computed from the state and the heap it finds.
\<close>

type_synonym creator = "action list \<times> ufun"

definition initial_store :: "heap \<Rightarrow> store" where
  "initial_store h0 = \<lparr>heap = h0, state = VUndefined, listeners = [], calls = []\<rparr>"

definition createStore :: "nat \<Rightarrow> listener_env \<Rightarrow> heap \<Rightarrow> creator
    \<Rightarrow> ((error + unit) \<times> store) option" where
  "createStore n env h0 createState =
     (case run n env (fst createState) (initial_store h0) of
        None \<Rightarrow> None
      | Some (Inl e, s) \<Rightarrow> Some (Inl e, s)
      | Some (Inr u, s) \<Rightarrow>
          (case snd createState (state s) (heap s) of
             (Inl e, h) \<Rightarrow> Some (Inl e, s\<lparr>heap := h\<rparr>)
           | (Inr v, h) \<Rightarrow> Some (Inr (), s\<lparr>heap := h, state := v\<rparr>)))"

text \<open>The listeners of a set, in order, and a set none of whose listeners does anything.\<close>

fun live :: "lid option list \<Rightarrow> lid list" where
  "live [] = []"
| "live (None # es) = live es"
| "live (Some fn # es) = fn # live es"

definition quiet :: "listener_env \<Rightarrow> lid option list \<Rightarrow> bool" where
  "quiet env es = (\<forall>fn st pv. Some fn \<in> set es \<longrightarrow> env fn st pv = [])"

section \<open>The memoized selector\<close>

text \<open>
  The instance record \<^verbatim>\<open>inst\<close> of \<^verbatim>\<open>useSyncExternalStoreWithSelector\<close> is
  \<^verbatim>\<open>undefined\<close>, \<^verbatim>\<open>null\<close> or an object with the fields \<^verbatim>\<open>hasValue\<close> and
  \<^verbatim>\<open>value\<close>. The variables of the closure \<^verbatim>\<open>useMemo\<close> keeps are \<^verbatim>\<open>hasMemo\<close>,
  \<^verbatim>\<open>memoizedSnapshot\<close> and \<^verbatim>\<open>memoizedSelection\<close>. A selector and a comparator are
  functions of the caller: they may throw, and they act on a world \<open>'w\<close> of their
  own (a selector that builds a new object at each call changes it). \<open>invoked\<close> is
  the log of the calls made to them.
\<close>

datatype Instance = InstUndefined | InstNull | Inst bool jsval

datatype call = SelectorCall jsval | IsEqualCall jsval jsval

type_synonym 'w selector = "jsval \<Rightarrow> 'w \<Rightarrow> (error + jsval) \<times> 'w"

type_synonym 'w equality = "jsval \<Rightarrow> jsval \<Rightarrow> 'w \<Rightarrow> (error + bool) \<times> 'w"

record 'w memo =
  hasMemo :: bool
  memoizedSnapshot :: jsval
  memoizedSelection :: jsval
  world :: 'w
  invoked :: "call list"

text \<open>\<^verbatim>\<open>selector(nextSnapshot)\<close>; calling \<^verbatim>\<open>undefined\<close> is a \<^verbatim>\<open>TypeError\<close>.\<close>

definition call_selector :: "'w selector option \<Rightarrow> jsval \<Rightarrow> 'w memo
    \<Rightarrow> (error + jsval) \<times> 'w memo" where
  "call_selector selector snap m =
     (case selector of
        None \<Rightarrow> (Inl TypeError, m)
      | Some f \<Rightarrow>
          (case f snap (world m) of
             (r, w) \<Rightarrow> (r, m\<lparr>world := w, invoked := invoked m @ [SelectorCall snap]\<rparr>)))"

definition call_isEqual :: "'w equality \<Rightarrow> jsval \<Rightarrow> jsval \<Rightarrow> 'w memo
    \<Rightarrow> (error + bool) \<times> 'w memo" where
  "call_isEqual eq a b m =
     (case eq a b (world m) of
        (r, w) \<Rightarrow> (r, m\<lparr>world := w, invoked := invoked m @ [IsEqualCall a b]\<rparr>))"

text \<open>
  \<^verbatim>\<open>memoizedSelector(nextSnapshot)\<close>, lines 104 to 137. On the first call the
  assignments to \<^verbatim>\<open>hasMemo\<close> and \<^verbatim>\<open>memoizedSnapshot\<close> come before the call of
  the selector; reading \<^verbatim>\<open>inst.hasValue\<close> of \<^verbatim>\<open>undefined\<close> or \<^verbatim>\<open>null\<close> is a
  \<^verbatim>\<open>TypeError\<close>.
\<close>

definition memoizedSelector :: "'w selector option \<Rightarrow> 'w equality option \<Rightarrow> Instance
    \<Rightarrow> jsval \<Rightarrow> 'w memo \<Rightarrow> (error + jsval) \<times> 'w memo" where
  "memoizedSelector selector isEqual inst nextSnapshot m =
     (let prevSnapshot = memoizedSnapshot m;
          prevSelection = memoizedSelection m
      in
      if \<not> hasMemo m then
        (case call_selector selector nextSnapshot
                (m\<lparr>hasMemo := True, memoizedSnapshot := nextSnapshot\<rparr>) of
           (Inl e, m1) \<Rightarrow> (Inl e, m1)
         | (Inr nextSelection, m1) \<Rightarrow>
             if isEqual \<noteq> None then
               (case inst of
                  Inst hasValue currentSelection \<Rightarrow>
                    if hasValue then
                      (Inr currentSelection, m1\<lparr>memoizedSelection := currentSelection\<rparr>)
                    else (Inr nextSelection, m1\<lparr>memoizedSelection := nextSelection\<rparr>)
                | _ \<Rightarrow> (Inl TypeError, m1))
             else (Inr nextSelection, m1\<lparr>memoizedSelection := nextSelection\<rparr>))
      else if Object_is prevSnapshot nextSnapshot then (Inr prevSelection, m)
      else
        (case call_selector selector nextSnapshot m of
           (Inl e, m1) \<Rightarrow> (Inl e, m1)
         | (Inr nextSelection, m1) \<Rightarrow>
             (case isEqual of
                None \<Rightarrow>
                  (Inr nextSelection,
                   m1\<lparr>memoizedSnapshot := nextSnapshot, memoizedSelection := nextSelection\<rparr>)
              | Some eq \<Rightarrow>
                  (case call_isEqual eq prevSelection nextSelection m1 of
                     (Inl e, m2) \<Rightarrow> (Inl e, m2)
                   | (Inr equal, m2) \<Rightarrow>
                       if equal then (Inr prevSelection, m2)
                       else
                         (Inr nextSelection,
                          m2\<lparr>memoizedSnapshot := nextSnapshot,
                             memoizedSelection := nextSelection\<rparr>)))))"

text \<open>The closure as \<^verbatim>\<open>useMemo\<close> builds it: nothing memoized, both variables unassigned.\<close>

definition new_memo :: "'w \<Rightarrow> call list \<Rightarrow> 'w memo" where
  "new_memo w cs =
     \<lparr>hasMemo = False, memoizedSnapshot = VUndefined, memoizedSelection = VUndefined,
      world = w, invoked = cs\<rparr>"

text \<open>\<^verbatim>\<open>getSnapshotWithSelector = () => memoizedSelector(getSnapshot())\<close>\<close>

definition getSelection :: "'w selector option \<Rightarrow> 'w equality option \<Rightarrow> Instance
    \<Rightarrow> store \<Rightarrow> 'w memo \<Rightarrow> (error + jsval) \<times> 'w memo" where
  "getSelection selector isEqual inst api m =
     memoizedSelector selector isEqual inst (getState api) m"

section \<open>The hook\<close>

text \<open>
  What one use of the hook keeps between renders: the cell \<^verbatim>\<open>instRef.current\<close> and
  the memoizer. The instance record is shared by reference between the cell, the
  memoizer and the effect, and the cell is assigned only while it is \<^verbatim>\<open>null\<close>, so
  the record any of them reads is the content of the cell.
\<close>

record 'w hook =
  instRef_current :: Instance
  memoizer :: "'w memo"

text \<open>
  \<^verbatim>\<open>const instRef = useRef<Instance>()\<close>: the call passes no initial value, so on
  mount the cell holds \<^verbatim>\<open>undefined\<close>.
\<close>

definition mount :: "'w \<Rightarrow> 'w hook" where
  "mount w = \<lparr>instRef_current = InstUndefined, memoizer = new_memo w []\<rparr>"

text \<open>Lines 90 to 98: the record is built only when the cell is \<^verbatim>\<open>null\<close>.\<close>

definition current_inst :: "Instance \<Rightarrow> Instance" where
  "current_inst c = (if c = InstNull then Inst False VNull else c)"

text \<open>
  Modelled from the spec: the host's primitive \<^verbatim>\<open>useSyncExternalStore(subscribe,
  getSnapshot)\<close>, which is not in the sources. Section 6 of the spec: it registers for
  change notification and returns the value read through the getter it is handed;
  here, one call of that getter.
\<close>

definition useSyncExternalStore :: "('m \<Rightarrow> 'r \<times> 'm) \<Rightarrow> 'm \<Rightarrow> 'r \<times> 'm" where
  "useSyncExternalStore getSnapshot m = getSnapshot m"

text \<open>
  One render of \<^verbatim>\<open>useSyncExternalStoreWithSelector\<close>, up to the value it returns.
  \<open>recreate\<close> says that \<^verbatim>\<open>useMemo\<close> builds the memoizer anew (on mount, or when
  the selector, the comparator or \<^verbatim>\<open>getSnapshot\<close> is another function).
\<close>

definition useSyncExternalStoreWithSelector :: "bool \<Rightarrow> store \<Rightarrow> 'w selector option
    \<Rightarrow> 'w equality option \<Rightarrow> 'w hook \<Rightarrow> (error + jsval) \<times> 'w hook" where
  "useSyncExternalStoreWithSelector recreate api selector isEqual h =
     (let inst = current_inst (instRef_current h);
          m = (if recreate then new_memo (world (memoizer h)) (invoked (memoizer h))
               else memoizer h)
      in case useSyncExternalStore (getSelection selector isEqual inst api) m of
           (r, m') \<Rightarrow> (r, \<lparr>instRef_current = inst, memoizer = m'\<rparr>))"

text \<open>
  The effect of lines 143 to 146, run once the value is committed:
  \<^verbatim>\<open>inst.hasValue = true; inst.value = value\<close>.
\<close>

definition commit :: "jsval \<Rightarrow> 'w hook \<Rightarrow> (error + unit) \<times> 'w hook" where
  "commit v h =
     (case instRef_current h of
        Inst hasValue x \<Rightarrow> (Inr (), h\<lparr>instRef_current := Inst True v\<rparr>)
      | _ \<Rightarrow> (Inl TypeError, h))"

definition useStore :: "bool \<Rightarrow> store \<Rightarrow> 'w selector option \<Rightarrow> 'w equality option
    \<Rightarrow> 'w hook \<Rightarrow> (error + jsval) \<times> 'w hook" where
  "useStore recreate api selector equalityFn h =
     useSyncExternalStoreWithSelector recreate api selector equalityFn h"

text \<open>
  The callable \<^verbatim>\<open>createImpl\<close> returns: \<^verbatim>\<open>(selector?, equalityFn?) =>
  useStore(api, selector, equalityFn)\<close>; an argument left out is \<open>None\<close>.
\<close>

definition useBoundStore :: "store \<Rightarrow> bool \<Rightarrow> 'w selector option \<Rightarrow> 'w equality option
    \<Rightarrow> 'w hook \<Rightarrow> (error + jsval) \<times> 'w hook" where
  "useBoundStore api recreate selector equalityFn h =
     useStore recreate api selector equalityFn h"

section \<open>Observations and example inputs\<close>

text \<open>The state a run leaves, and the listeners it called, in order.\<close>

definition post_state :: "((error + unit) \<times> store) option \<Rightarrow> jsval option" where
  "post_state r = map_option (\<lambda>x. state (snd x)) r"

definition notified :: "((error + unit) \<times> store) option \<Rightarrow> lid list option" where
  "notified r = map_option (\<lambda>x. map fst (calls (snd x))) r"

text \<open>Listeners that only observe.\<close>

definition no_env :: listener_env where
  "no_env fn st pv = []"

text \<open>
  A store whose state is the object \<^verbatim>\<open>{count: 0, name: "a"}\<close>, with one listener;
  the heap also holds \<^verbatim>\<open>{count: 1}\<close>.
\<close>

definition store_ex :: store where
  "store_ex =
     \<lparr>heap = [Map.empty(''count'' \<mapsto> VNum 0, ''name'' \<mapsto> VStr ''a''),
              Map.empty(''count'' \<mapsto> VNum 1)],
      state = VRef 0, listeners = [Some 1], calls = []\<rparr>"

text \<open>
  A store with two listeners; a first listener that subscribes a second one when it
  is called, and one that unsubscribes it; an initializer's return of a new object
  \<^verbatim>\<open>{count: 0}\<close>.
\<close>

definition store_two :: store where
  "store_two = \<lparr>heap = [], state = VNum 0, listeners = [Some 1, Some 2], calls = []\<rparr>"

definition subscribing_env :: listener_env where
  "subscribing_env fn st pv = (if fn = 1 then [Subscribe 2] else [])"

definition unsubscribing_env :: listener_env where
  "unsubscribing_env fn st pv = (if fn = 1 then [Unsubscribe 2] else [])"

definition returns_count0 :: ufun where
  "returns_count0 st h = (Inr (VRef (length h)), h @ [Map.empty(''count'' \<mapsto> VNum 0)])"

text \<open>
  \<^verbatim>\<open>s => s\<close>, \<^verbatim>\<open>s => 0\<close> and a selector that throws, each counting its calls in the
  world; a comparator that holds of any two selections; a memoizer that has been
  called once, on the snapshot at address 1.
\<close>

definition echo_selector :: "nat selector" where
  "echo_selector snap w = (Inr snap, Suc w)"

definition zero_selector :: "nat selector" where
  "zero_selector snap w = (Inr (VNum 0), Suc w)"

definition raising_selector :: "nat selector" where
  "raising_selector snap w = (Inl (Thrown (VStr ''boom'')), Suc w)"

definition always_equal :: "nat equality" where
  "always_equal a b w = (Inr True, w)"

definition memo_ex :: "nat memo" where
  "memo_ex =
     \<lparr>hasMemo = True, memoizedSnapshot = VRef 1, memoizedSelection = VNum 0,
      world = 1, invoked = [SelectorCall (VRef 1)]\<rparr>"

section \<open>The write\<close>

lemma resolve_frame:
  "state (snd (resolve p s)) = state s"
  "listeners (snd (resolve p s)) = listeners s"
  "calls (snd (resolve p s)) = calls s"
  by (cases p; simp add: resolve_def split: prod.splits)+

lemma assign_state_frame:
  "listeners (assign_state r v s) = listeners s"
  "calls (assign_state r v s) = calls s"
  by (simp_all add: assign_state_def split: prod.splits)

lemma assign_state_replace:
  "replaces replace v \<Longrightarrow> assign_state replace v s = s\<lparr>state := v\<rparr>"
  by (simp add: assign_state_def)

lemma assign_state_merge:
  "\<not> replaces replace v \<Longrightarrow>
   assign_state replace v s =
     s\<lparr>heap := heap s @ [Map.empty ++ own_props (heap s) (state s) ++ own_props (heap s) v],
       state := VRef (length (heap s))\<rparr>"
  by (simp add: assign_state_def Object_assign_def)

lemma merge_props:
  "(a ++ b) k = (case b k of Some x \<Rightarrow> Some x | None \<Rightarrow> a k)"
  by (simp add: map_add_def split: option.splits)

text \<open>A pass over listeners that only observe calls each of them once and ends.\<close>

lemma forEach_quiet:
  "quiet env (drop i (listeners s)) \<Longrightarrow> length (listeners s) - i \<le> n \<Longrightarrow>
   forEach n env i pv s =
     Some (Inr (),
       s\<lparr>calls := calls s @ map (\<lambda>fn. (fn, state s, pv)) (live (drop i (listeners s)))\<rparr>)"
proof (induction n arbitrary: i s)
  case 0
  then show ?case by simp
next
  case (Suc n)
  show ?case
  proof (cases "i < length (listeners s)")
    case False
    then show ?thesis by simp
  next
    case True
    then have d: "drop i (listeners s) = listeners s ! i # drop (Suc i) (listeners s)"
      by (simp add: Cons_nth_drop_Suc)
    have p': "quiet env (drop (Suc i) (listeners s))"
      using Suc.prems(1) unfolding d quiet_def by simp
    show ?thesis
    proof (cases "listeners s ! i")
      case None
      then show ?thesis
        using True d Suc.IH [OF p'] Suc.prems(2) by simp
    next
      case (Some fn)
      then have e: "env fn (state s) pv = []"
        using Suc.prems(1) unfolding d quiet_def by simp
      let ?s = "s\<lparr>calls := calls s @ [(fn, state s, pv)]\<rparr>"
      have "quiet env (drop (Suc i) (listeners ?s))" using p' by simp
      from Suc.IH [OF this] Suc.prems(2)
      show ?thesis using True d Some e by simp
    qed
  qed
qed

lemma setState_quiet:
  assumes "quiet env (listeners s)" and "resolve p s = (Inr v, s1)"
    and "\<not> Object_is (state s) v" and "length (listeners s) \<le> n"
  shows "setState n env p replace s =
     Some (Inr (), (assign_state replace v s1)
       \<lparr>calls := calls s @
          map (\<lambda>fn. (fn, state (assign_state replace v s1), state s)) (live (listeners s))\<rparr>)"
proof -
  have f: "state s1 = state s" "listeners s1 = listeners s" "calls s1 = calls s"
    using resolve_frame [of p s] assms(2) by simp_all
  let ?s2 = "assign_state replace v s1"
  have l: "listeners ?s2 = listeners s" "calls ?s2 = calls s"
    using f by (simp_all add: assign_state_frame)
  have "forEach n env 0 (state s) ?s2 =
     Some (Inr (), ?s2\<lparr>calls := calls ?s2 @
          map (\<lambda>fn. (fn, state ?s2, state s)) (live (drop 0 (listeners ?s2)))\<rparr>)"
    by (rule forEach_quiet) (use assms l in simp_all)
  then show ?thesis
    using assms(2,3) f l by (simp add: setState.simps)
qed

text \<open>
  C1, as the code has it. The test of line 47 is \<^verbatim>\<open>replace ?? typeof nextState !==
  'object'\<close>. For every write that changes the state, made while the listeners only
  observe: when \<^verbatim>\<open>replace\<close> is \<^verbatim>\<open>true\<close>, or is absent and \<^verbatim>\<open>typeof\<close> of the next
  value is not \<^verbatim>\<open>'object'\<close>, the new state is the next value itself; when \<^verbatim>\<open>replace\<close>
  is \<^verbatim>\<open>false\<close> (whatever the next value), or is absent and the next value is an
  object, the new state is a new object, a one-level merge in which every key of the
  next value carries the next value's entry and every other key carries the current
  state's.
\<close>

theorem setState_post_state:
  assumes "quiet env (listeners s)" and "resolve p s = (Inr v, s1)"
    and "\<not> Object_is (state s) v" and "length (listeners s) \<le> n"
  shows "\<exists>s'. setState n env p replace s = Some (Inr (), s')
     \<and> (replace = Some True \<or> (replace = None \<and> typeof v \<noteq> ''object'') \<longrightarrow>
          state s' = v \<and> heap s' = heap s1)
     \<and> (replace = Some False \<or> (replace = None \<and> (\<exists>a. v = VRef a)) \<longrightarrow>
          state s' = VRef (length (heap s1))
          \<and> length (heap s') = Suc (length (heap s1))
          \<and> (\<forall>k. own_props (heap s') (state s') k =
                (case own_props (heap s1) v k of
                   Some x \<Rightarrow> Some x
                 | None \<Rightarrow> own_props (heap s1) (state s) k)))"
proof -
  let ?s2 = "assign_state replace v s1"
  let ?s' = "?s2\<lparr>calls := calls s @
          map (\<lambda>fn. (fn, state ?s2, state s)) (live (listeners s))\<rparr>"
  have st: "state s1 = state s" using resolve_frame(1) [of p s] assms(2) by simp
  have 1: "setState n env p replace s = Some (Inr (), ?s')"
    using assms by (rule setState_quiet)
  have 2: "replace = Some True \<or> (replace = None \<and> typeof v \<noteq> ''object'') \<longrightarrow>
          state ?s' = v \<and> heap ?s' = heap s1"
    by (auto simp: assign_state_replace replaces_def)
  have 3: "replace = Some False \<or> (replace = None \<and> (\<exists>a. v = VRef a)) \<longrightarrow>
          state ?s' = VRef (length (heap s1))
          \<and> length (heap ?s') = Suc (length (heap s1))
          \<and> (\<forall>k. own_props (heap ?s') (state ?s') k =
                (case own_props (heap s1) v k of
                   Some x \<Rightarrow> Some x
                 | None \<Rightarrow> own_props (heap s1) (state s) k))"
  proof
    assume "replace = Some False \<or> (replace = None \<and> (\<exists>a. v = VRef a))"
    then have "\<not> replaces replace v" by (auto simp: replaces_def)
    then show "state ?s' = VRef (length (heap s1))
          \<and> length (heap ?s') = Suc (length (heap s1))
          \<and> (\<forall>k. own_props (heap ?s') (state ?s') k =
                (case own_props (heap s1) v k of
                   Some x \<Rightarrow> Some x
                 | None \<Rightarrow> own_props (heap s1) (state s) k))"
      by (simp add: assign_state_merge st merge_props)
  qed
  from 1 2 3 show ?thesis by blast
qed

theorem setState_post_state_witness:
  "(\<exists>s'. setState 1 no_env (Value (VRef 1)) None store_ex = Some (Inr (), s')
     \<and> state s' = VRef 2
     \<and> own_props (heap s') (state s') ''count'' = Some (VNum 1)
     \<and> own_props (heap s') (state s') ''name'' = Some (VStr ''a''))
   \<and> (\<exists>s'. setState 1 no_env (Value (VRef 1)) (Some True) store_ex = Some (Inr (), s')
     \<and> state s' = VRef 1 \<and> heap s' = heap store_ex)"
proof -
  have h1: "quiet no_env (listeners store_ex)" by (simp add: quiet_def no_env_def)
  have h2: "resolve (Value (VRef 1)) store_ex = (Inr (VRef 1), store_ex)"
    by (simp add: resolve_def)
  have h3: "\<not> Object_is (state store_ex) (VRef 1)"
    by (simp add: Object_is_def store_ex_def)
  have h4: "length (listeners store_ex) \<le> 1" by (simp add: store_ex_def)
  from setState_post_state [OF h1 h2 h3 h4, of None]
  obtain s' where s': "setState 1 no_env (Value (VRef 1)) None store_ex = Some (Inr (), s')"
      "state s' = VRef (length (heap store_ex))"
      "\<forall>k. own_props (heap s') (state s') k =
                (case own_props (heap store_ex) (VRef 1) k of
                   Some x \<Rightarrow> Some x
                 | None \<Rightarrow> own_props (heap store_ex) (state store_ex) k)"
    by auto
  have "state s' = VRef 2" using s'(2) by (simp add: store_ex_def)
  moreover have "own_props (heap s') (state s') ''count'' = Some (VNum 1)"
    using s'(3) by (simp add: store_ex_def)
  moreover have "own_props (heap s') (state s') ''name'' = Some (VStr ''a'')"
    using s'(3) by (simp add: store_ex_def)
  ultimately have 1: "\<exists>s'. setState 1 no_env (Value (VRef 1)) None store_ex = Some (Inr (), s')
     \<and> state s' = VRef 2
     \<and> own_props (heap s') (state s') ''count'' = Some (VNum 1)
     \<and> own_props (heap s') (state s') ''name'' = Some (VStr ''a'')"
    using s'(1) by blast
  have 2: "\<exists>s'. setState 1 no_env (Value (VRef 1)) (Some True) store_ex = Some (Inr (), s')
     \<and> state s' = VRef 1 \<and> heap s' = heap store_ex"
    using setState_post_state [OF h1 h2 h3 h4, of "Some True"] by auto
  show ?thesis using 1 2 by blast
qed

text \<open>
  With \<^verbatim>\<open>replace\<close> given as \<^verbatim>\<open>false\<close> and the number 5 as the next value, the new
  state is not 5: it is a new object, a copy of the current state.
\<close>

theorem setState_explicit_false_counterexample:
  "post_state (setState 1 no_env (Value (VNum 5)) (Some False) store_ex) = Some (VRef 2)
   \<and> post_state (setState 1 no_env (Value (VNum 5)) (Some False) store_ex) \<noteq> Some (VNum 5)"
  by (simp add: post_state_def setState.simps resolve_def Object_is_def store_ex_def
      assign_state_def replaces_def Object_assign_def no_env_def)

text \<open>
  The test of line 47 has no case for \<^verbatim>\<open>null\<close>, whose \<^verbatim>\<open>typeof\<close> is \<^verbatim>\<open>'object'\<close>:
  written with \<^verbatim>\<open>replace\<close> absent, \<^verbatim>\<open>null\<close> is merged as an object without keys.
\<close>

lemma setState_null_absent_replace:
  "post_state (setState 1 no_env (Value VNull) None store_ex) = Some (VRef 2)"
  by (simp add: post_state_def setState.simps resolve_def Object_is_def store_ex_def
      assign_state_def replaces_def Object_assign_def no_env_def)

text \<open>
  C8. For every write whose resolved next value is the current state for
  \<^verbatim>\<open>Object.is\<close>, whatever the fuel, the listeners and \<^verbatim>\<open>replace\<close>: the write returns,
  the state is not assigned, the set of listeners is as it was and no listener is
  called. A next value given directly leaves the whole store as it was; an updater
  leaves at most the objects it allocated itself.
\<close>

theorem setState_identity_noop:
  "fst (resolve p s) = Inr v \<Longrightarrow> Object_is (state s) v \<Longrightarrow>
   setState n env p replace s = Some (Inr (), snd (resolve p s))
   \<and> state (snd (resolve p s)) = state s
   \<and> listeners (snd (resolve p s)) = listeners s
   \<and> calls (snd (resolve p s)) = calls s
   \<and> (p = Value v \<longrightarrow> snd (resolve p s) = s)"
proof -
  assume a: "fst (resolve p s) = Inr v" and b: "Object_is (state s) v"
  obtain s1 where r: "resolve p s = (Inr v, s1)" using a by (cases "resolve p s") simp
  have st: "state s1 = state s" using resolve_frame(1) [of p s] r by simp
  have 1: "setState n env p replace s = Some (Inr (), s1)"
    using r b st by (simp add: Object_is_def setState.simps)
  have 2: "p = Value v \<longrightarrow> s1 = s" using r by (auto simp: resolve_def)
  have 3: "snd (resolve p s) = s1" using r by simp
  show ?thesis unfolding 3 using 1 2 resolve_frame [of p s, unfolded 3] by blast
qed

theorem setState_identity_noop_witness:
  "setState 0 (\<lambda>fn st pv. [Throw VNull]) (Value (VRef 0)) None store_ex
     = Some (Inr (), store_ex)"
  using setState_identity_noop [of "Value (VRef 0)" store_ex "VRef 0" 0
      "\<lambda>fn st pv. [Throw VNull]" None]
  by (simp add: resolve_def Object_is_def store_ex_def)

section \<open>Listeners\<close>

lemma live_append: "live (xs @ ys) = live xs @ live ys"
  by (induction xs rule: live.induct) simp_all

lemma set_live: "set (live es) = {fn. Some fn \<in> set es}"
  by (induction es rule: live.induct) auto

lemma live_Set_delete: "live (Set_delete l es) = filter (\<lambda>x. x \<noteq> l) (live es)"
  by (induction es rule: live.induct) (simp_all add: Set_delete_def)

lemma live_Set_add:
  "live (Set_add l es) = (if Some l \<in> set es then live es else live es @ [l])"
  by (simp add: Set_add_def live_append)

lemma distinct_Set_add: "distinct (live es) \<Longrightarrow> distinct (live (Set_add l es))"
  by (simp add: live_Set_add set_live)

lemma distinct_Set_delete: "distinct (live es) \<Longrightarrow> distinct (live (Set_delete l es))"
  by (simp add: live_Set_delete)

lemma Set_delete_drop: "drop k (Set_delete l es) = Set_delete l (drop k es)"
  by (simp add: Set_delete_def drop_map)

lemma quiet_Set_delete: "quiet env es \<Longrightarrow> quiet env (Set_delete l es)"
  by (auto simp: quiet_def Set_delete_def split: if_splits)

lemma quiet_append: "quiet env (xs @ ys) = (quiet env xs \<and> quiet env ys)"
  by (auto simp: quiet_def)

text \<open>The listeners of a store stay pairwise distinct, whatever the listeners do.\<close>

lemma distinct_listeners:
  shows "distinct (live (listeners s)) \<Longrightarrow> setState n env p replace s = Some (r, s')
      \<Longrightarrow> distinct (live (listeners s'))"
    and "distinct (live (listeners s)) \<Longrightarrow> forEach n env i pv s = Some (r, s')
      \<Longrightarrow> distinct (live (listeners s'))"
    and "distinct (live (listeners s)) \<Longrightarrow> run n env as s = Some (r, s')
      \<Longrightarrow> distinct (live (listeners s'))"
proof (induction n env p replace s and n env i pv s and n env as s
    arbitrary: r s' and r s' and r s' rule: setState_forEach_run.induct)
  case (1 n env p replace s)
  obtain x s1 where rs: "resolve p s = (x, s1)" by (cases "resolve p s")
  have l1: "listeners s1 = listeners s" using resolve_frame(2) [of p s] rs by simp
  show ?case
  proof (cases x)
    case (Inl e)
    then show ?thesis using "1.prems" rs l1 by (simp add: setState.simps)
  next
    case (Inr v)
    show ?thesis
    proof (cases "Object_is (state s1) v")
      case True
      then show ?thesis using "1.prems" rs l1 Inr by (simp add: setState.simps)
    next
      case False
      have "distinct (live (listeners (assign_state replace v s1)))"
        using "1.prems"(1) l1 by (simp add: assign_state_frame)
      moreover have "forEach n env 0 (state s1) (assign_state replace v s1) = Some (r, s')"
        using "1.prems"(2) rs Inr False by (simp add: setState.simps)
      ultimately show ?thesis using "1.IH" [OF rs [symmetric] Inr _ ] False by blast
    qed
  qed
next
  case (2 env i pv s)
  then show ?case by (simp split: if_splits)
next
  case (3 n env i pv s)
  show ?case
  proof (cases "i < length (listeners s)")
    case False
    then show ?thesis using "3.prems" by simp
  next
    case True
    show ?thesis
    proof (cases "listeners s ! i")
      case None
      then show ?thesis using "3.IH"(1) [OF True None] "3.prems" True by simp
    next
      case (Some fn)
      let ?t = "s\<lparr>calls := calls s @ [(fn, state s, pv)]\<rparr>"
      show ?thesis
      proof (cases "run n env (env fn (state s) pv) ?t")
        case None
        then show ?thesis using "3.prems" True Some by simp
      next
        case (Some y)
        obtain x t' where y: "y = (x, t')" by (cases y)
        have d: "distinct (live (listeners t'))"
          using "3.IH"(2) [OF True \<open>listeners s ! i = Some fn\<close>, of x t'] "3.prems"(1) Some y
          by simp
        show ?thesis
        proof (cases x)
          case (Inl e)
          then show ?thesis
            using "3.prems"(2) True \<open>listeners s ! i = Some fn\<close> Some y d by simp
        next
          case (Inr u)
          have "forEach n env (Suc i) pv t' = Some (r, s')"
            using "3.prems"(2) True \<open>listeners s ! i = Some fn\<close> Some y Inr by simp
          then show ?thesis
            using "3.IH"(3) [OF True \<open>listeners s ! i = Some fn\<close> Some [unfolded y] _ Inr d]
            by simp
        qed
      qed
    qed
  qed
next
  case (4 n env s)
  then show ?case by simp
next
  case (5 n env l as s)
  then show ?case by (simp add: subscribe_def distinct_Set_add)
next
  case (6 n env l as s)
  then show ?case by (simp add: unsubscribe_def distinct_Set_delete)
next
  case (7 n env p replace as s)
  show ?case
  proof (cases "setState n env p replace s")
    case None
    then show ?thesis using "7.prems" by simp
  next
    case (Some y)
    obtain x t' where y: "y = (x, t')" by (cases y)
    have d: "distinct (live (listeners t'))"
      using "7.IH"(1) [of x t'] "7.prems"(1) Some y by simp
    show ?thesis
    proof (cases x)
      case (Inl e)
      then show ?thesis using "7.prems"(2) Some y d by simp
    next
      case (Inr u)
      have "run n env as t' = Some (r, s')" using "7.prems"(2) Some y Inr by simp
      then show ?thesis using "7.IH"(2) [OF Some [unfolded y] _ Inr d] by simp
    qed
  qed
next
  case (8 n env v as s)
  then show ?case by simp
qed

lemma createStore_distinct:
  "createStore n env h0 createState = Some (r, s) \<Longrightarrow> distinct (live (listeners s))"
proof -
  assume a: "createStore n env h0 createState = Some (r, s)"
  have i: "distinct (live (listeners (initial_store h0)))" by (simp add: initial_store_def)
  show ?thesis
  proof (cases "run n env (fst createState) (initial_store h0)")
    case None
    then show ?thesis using a by (simp add: createStore_def)
  next
    case (Some y)
    obtain x t where y: "y = (x, t)" by (cases y)
    have "distinct (live (listeners t))"
      using distinct_listeners(3) [OF i Some [unfolded y]] .
    then show ?thesis
      using a Some y by (auto simp: createStore_def split: sum.splits prod.splits)
  qed
qed

text \<open>
  A pass over entries that only observe, up to entry \<open>k\<close>; then a pass in which the
  listener at entry \<open>k\<close> edits the set and the others only observe.
\<close>

lemma forEach_quiet_prefix:
  "d = k - i \<Longrightarrow> quiet env (take d (drop i (listeners s))) \<Longrightarrow> i \<le> k \<Longrightarrow>
   k \<le> length (listeners s) \<Longrightarrow> d \<le> n \<Longrightarrow>
   forEach n env i pv s =
     forEach (n - d) env k pv
       (s\<lparr>calls := calls s @
            map (\<lambda>fn. (fn, state s, pv)) (live (take d (drop i (listeners s))))\<rparr>)"
proof (induction d arbitrary: i n s)
  case 0
  then show ?case by simp
next
  case (Suc d)
  from Suc.prems have ik: "i < k" and il: "i < length (listeners s)" by simp_all
  obtain n' where n: "n = Suc n'" using Suc.prems(5) by (cases n) simp_all
  have dr: "drop i (listeners s) = listeners s ! i # drop (Suc i) (listeners s)"
    using il by (simp add: Cons_nth_drop_Suc)
  have q: "quiet env (take d (drop (Suc i) (listeners s)))"
    using Suc.prems(2) unfolding dr quiet_def by simp
  have dk: "d = k - Suc i" using Suc.prems(1) by simp
  show ?case
  proof (cases "listeners s ! i")
    case None
    from Suc.IH [OF dk q] ik Suc.prems(4,5) n
    show ?thesis using il None dr by simp
  next
    case (Some fn)
    then have e: "env fn (state s) pv = []"
      using Suc.prems(2) unfolding dr quiet_def by simp
    let ?s = "s\<lparr>calls := calls s @ [(fn, state s, pv)]\<rparr>"
    have "quiet env (take d (drop (Suc i) (listeners ?s)))" using q by simp
    from Suc.IH [OF dk this] ik Suc.prems(4,5) n
    show ?thesis using il Some dr e by simp
  qed
qed

lemma forEach_editor:
  assumes k: "k < length (listeners s)" and a: "listeners s ! k = Some a"
    and pre: "quiet env (take k (listeners s))"
    and body: "\<And>m t. run m env (env a (state s) pv) t =
        Some (Inr (), t\<lparr>listeners := edit (listeners t)\<rparr>)"
    and post: "quiet env (drop (Suc k) (edit (listeners s)))"
    and fuel: "length (edit (listeners s)) \<le> n" "Suc k \<le> n"
  shows "forEach n env 0 pv s =
     Some (Inr (),
       s\<lparr>listeners := edit (listeners s),
         calls := calls s @ map (\<lambda>fn. (fn, state s, pv))
           (live (take (Suc k) (listeners s)) @ live (drop (Suc k) (edit (listeners s))))\<rparr>)"
proof -
  let ?c = "\<lambda>fn. (fn, state s, pv)"
  let ?s1 = "s\<lparr>calls := calls s @ map ?c (live (take k (listeners s)))\<rparr>"
  have 1: "forEach n env 0 pv s = forEach (n - k) env k pv ?s1"
    using forEach_quiet_prefix [of k k 0 env s n pv] pre k fuel by simp
  obtain n' where n': "n - k = Suc n'" using fuel(2) by (cases "n - k") simp_all
  let ?s2 = "?s1\<lparr>calls := calls ?s1 @ [(a, state s, pv)]\<rparr>"
  let ?s3 = "?s2\<lparr>listeners := edit (listeners s)\<rparr>"
  have 2: "forEach (Suc n') env k pv ?s1 = forEach n' env (Suc k) pv ?s3"
    using k a body [of n' ?s2] by simp
  have 3: "forEach n' env (Suc k) pv ?s3 =
     Some (Inr (), ?s3\<lparr>calls := calls ?s3 @
        map (\<lambda>fn. (fn, state ?s3, pv)) (live (drop (Suc k) (listeners ?s3)))\<rparr>)"
    by (rule forEach_quiet) (use post fuel n' in simp_all)
  have t: "live (take (Suc k) (listeners s)) = live (take k (listeners s)) @ [a]"
    using k a by (simp add: take_Suc_conv_app_nth live_append)
  show ?thesis unfolding 1 n' 2 3 by (simp add: t)
qed

lemma forEach_subscribing:
  assumes k: "k < length (listeners s)" and a: "listeners s ! k = Some a"
    and pre: "quiet env (take k (listeners s))"
    and body: "env a (state s) pv = [Subscribe b]"
    and new: "Some b \<notin> set (listeners s)"
    and post: "quiet env (drop (Suc k) (listeners s))" "quiet env [Some b]"
    and fuel: "length (listeners s) < n"
  shows "forEach n env 0 pv s =
     Some (Inr (),
       s\<lparr>listeners := listeners s @ [Some b],
         calls := calls s @ map (\<lambda>fn. (fn, state s, pv)) (live (listeners s) @ [b])\<rparr>)"
proof -
  have e: "Set_add b (listeners s) = listeners s @ [Some b]"
    using new by (simp add: Set_add_def)
  have 1: "forEach n env 0 pv s =
     Some (Inr (),
       s\<lparr>listeners := Set_add b (listeners s),
         calls := calls s @ map (\<lambda>fn. (fn, state s, pv))
           (live (take (Suc k) (listeners s)) @ live (drop (Suc k) (Set_add b (listeners s))))\<rparr>)"
  proof (rule forEach_editor [OF k a pre])
    show "\<And>m t. run m env (env a (state s) pv) t =
        Some (Inr (), t\<lparr>listeners := Set_add b (listeners t)\<rparr>)"
      by (simp add: body subscribe_def)
    show "quiet env (drop (Suc k) (Set_add b (listeners s)))"
      using post k by (simp add: e quiet_append)
    show "length (Set_add b (listeners s)) \<le> n" using fuel by (simp add: e)
    show "Suc k \<le> n" using k fuel by simp
  qed
  have 2: "live (take (Suc k) (listeners s)) @ live (drop (Suc k) (Set_add b (listeners s)))
     = live (listeners s) @ [b]"
  proof -
    have "live (take (Suc k) (listeners s)) @ live (drop (Suc k) (listeners s) @ [Some b])
       = live (take (Suc k) (listeners s) @ drop (Suc k) (listeners s)) @ [b]"
      by (simp only: live_append live.simps append_assoc)
    then show ?thesis using k by (simp add: e)
  qed
  show ?thesis using 1 [unfolded 2, unfolded e] .
qed

lemma forEach_unsubscribing:
  assumes k: "k < length (listeners s)" and a: "listeners s ! k = Some a"
    and pre: "quiet env (take k (listeners s))"
    and body: "env a (state s) pv = [Unsubscribe b]"
    and post: "quiet env (drop (Suc k) (listeners s))"
    and fuel: "length (listeners s) < n"
  shows "forEach n env 0 pv s =
     Some (Inr (),
       s\<lparr>listeners := Set_delete b (listeners s),
         calls := calls s @ map (\<lambda>fn. (fn, state s, pv))
           (live (take (Suc k) (listeners s))
            @ live (Set_delete b (drop (Suc k) (listeners s))))\<rparr>)"
proof -
  have "forEach n env 0 pv s =
     Some (Inr (),
       s\<lparr>listeners := Set_delete b (listeners s),
         calls := calls s @ map (\<lambda>fn. (fn, state s, pv))
           (live (take (Suc k) (listeners s))
            @ live (drop (Suc k) (Set_delete b (listeners s))))\<rparr>)"
  proof (rule forEach_editor [OF k a pre])
    show "\<And>m t. run m env (env a (state s) pv) t =
        Some (Inr (), t\<lparr>listeners := Set_delete b (listeners t)\<rparr>)"
      by (simp add: body unsubscribe_def)
    show "quiet env (drop (Suc k) (Set_delete b (listeners s)))"
      using post by (simp add: Set_delete_drop quiet_Set_delete)
    show "length (Set_delete b (listeners s)) \<le> n" using fuel by (simp add: Set_delete_def)
    show "Suc k \<le> n" using k fuel by simp
  qed
  then show ?thesis by (simp add: Set_delete_drop)
qed


text \<open>
  C5, as the code has it. \<^verbatim>\<open>listeners.forEach\<close> walks the set itself, not a copy
  taken when the pass starts. For every write that changes the state, in a pass where
  the listener \<open>a\<close> at entry \<open>k\<close> edits the set and the others only observe: when
  \<open>a\<close> subscribes a listener \<open>b\<close> that was not registered, \<open>b\<close> is appended and is
  called later in that same pass, after every listener registered at the start; when
  \<open>a\<close> unsubscribes \<open>b\<close>, the listeners up to \<open>a\<close> have been called, and of those
  after \<open>a\<close> all but \<open>b\<close> are called: \<open>b\<close>, be it \<open>a\<close> itself or a listener whose
  turn had not come, is not called later in that pass.
\<close>

theorem forEach_live_registry:
  "resolve p s = (Inr v, s1) \<and> \<not> Object_is (state s) v
   \<and> k < length (listeners s) \<and> listeners s ! k = Some a
   \<and> quiet env (take k (listeners s)) \<and> quiet env (drop (Suc k) (listeners s))
   \<and> length (listeners s) < n \<longrightarrow>
   ((\<forall>st pv. env a st pv = [Subscribe b]) \<and> Some b \<notin> set (listeners s)
      \<and> quiet env [Some b] \<longrightarrow>
      (\<exists>s'. setState n env p replace s = Some (Inr (), s')
         \<and> listeners s' = listeners s @ [Some b]
         \<and> calls s' = calls s @
              map (\<lambda>fn. (fn, state s', state s)) (live (listeners s) @ [b])))
   \<and> ((\<forall>st pv. env a st pv = [Unsubscribe b]) \<longrightarrow>
      (\<exists>s'. setState n env p replace s = Some (Inr (), s')
         \<and> listeners s' = Set_delete b (listeners s)
         \<and> calls s' = calls s @
              map (\<lambda>fn. (fn, state s', state s))
                (live (take (Suc k) (listeners s))
                 @ live (Set_delete b (drop (Suc k) (listeners s))))
         \<and> b \<notin> set (live (Set_delete b (drop (Suc k) (listeners s))))))"
proof (intro impI conjI)
  assume h: "resolve p s = (Inr v, s1) \<and> \<not> Object_is (state s) v
   \<and> k < length (listeners s) \<and> listeners s ! k = Some a
   \<and> quiet env (take k (listeners s)) \<and> quiet env (drop (Suc k) (listeners s))
   \<and> length (listeners s) < n"
  let ?s2 = "assign_state replace v s1"
  have f: "state s1 = state s" "listeners s1 = listeners s" "calls s1 = calls s"
    using resolve_frame [of p s] h by simp_all
  have l: "listeners ?s2 = listeners s" "calls ?s2 = calls s"
    using f by (simp_all add: assign_state_frame)
  have w: "setState n env p replace s = forEach n env 0 (state s) ?s2"
    using h f by (simp add: setState.simps)
  {
    assume b: "(\<forall>st pv. env a st pv = [Subscribe b]) \<and> Some b \<notin> set (listeners s)
      \<and> quiet env [Some b]"
    have "forEach n env 0 (state s) ?s2 =
      Some (Inr (),
       ?s2\<lparr>listeners := listeners ?s2 @ [Some b],
         calls := calls ?s2 @
           map (\<lambda>fn. (fn, state ?s2, state s)) (live (listeners ?s2) @ [b])\<rparr>)"
      by (rule forEach_subscribing [where k = k and a = a]) (use h b l in simp_all)
    then show "\<exists>s'. setState n env p replace s = Some (Inr (), s')
         \<and> listeners s' = listeners s @ [Some b]
         \<and> calls s' = calls s @
              map (\<lambda>fn. (fn, state s', state s)) (live (listeners s) @ [b])"
      using w l by simp
  }
  {
    assume b: "\<forall>st pv. env a st pv = [Unsubscribe b]"
    have "forEach n env 0 (state s) ?s2 =
      Some (Inr (),
       ?s2\<lparr>listeners := Set_delete b (listeners ?s2),
         calls := calls ?s2 @ map (\<lambda>fn. (fn, state ?s2, state s))
           (live (take (Suc k) (listeners ?s2))
            @ live (Set_delete b (drop (Suc k) (listeners ?s2))))\<rparr>)"
      by (rule forEach_unsubscribing [where k = k and a = a]) (use h b l in simp_all)
    moreover have "b \<notin> set (live (Set_delete b (drop (Suc k) (listeners s))))"
      by (simp add: live_Set_delete)
    ultimately show "\<exists>s'. setState n env p replace s = Some (Inr (), s')
         \<and> listeners s' = Set_delete b (listeners s)
         \<and> calls s' = calls s @
              map (\<lambda>fn. (fn, state s', state s))
                (live (take (Suc k) (listeners s))
                 @ live (Set_delete b (drop (Suc k) (listeners s))))
         \<and> b \<notin> set (live (Set_delete b (drop (Suc k) (listeners s))))"
      using w l by simp
  }
qed

text \<open>
  Listener 2 is not registered when the write starts and is called for it, because
  listener 1 subscribes it during the pass; and listener 2, registered when the write
  starts, is not called for it when listener 1 unsubscribes it during the pass.
\<close>

theorem forEach_snapshot_counterexample:
  "Some 2 \<notin> set (listeners store_ex)
   \<and> notified (setState 2 subscribing_env (Value (VNum 7)) (Some True) store_ex) = Some [1, 2]
   \<and> Some 2 \<in> set (listeners store_two)
   \<and> notified (setState 3 unsubscribing_env (Value (VNum 7)) (Some True) store_two) = Some [1]"
  by (simp add: notified_def setState.simps resolve_def Object_is_def store_ex_def store_two_def
      assign_state_def replaces_def subscribing_env_def unsubscribing_env_def
      subscribe_def unsubscribe_def Set_add_def Set_delete_def numeral_2_eq_2 numeral_3_eq_3)

theorem forEach_live_registry_witness:
  "(\<exists>s'. setState 2 subscribing_env (Value (VNum 7)) (Some True) store_ex = Some (Inr (), s')
      \<and> listeners s' = [Some 1, Some 2]
      \<and> calls s' = [(1, state s', VRef 0), (2, state s', VRef 0)])
   \<and> (\<exists>s'. setState 3 unsubscribing_env (Value (VNum 7)) (Some True) store_two = Some (Inr (), s')
      \<and> listeners s' = [Some 1, None]
      \<and> calls s' = [(1, state s', VNum 0)])"
proof
  have "resolve (Value (VNum 7)) store_ex = (Inr (VNum 7), store_ex)
   \<and> \<not> Object_is (state store_ex) (VNum 7)
   \<and> 0 < length (listeners store_ex) \<and> listeners store_ex ! 0 = Some 1
   \<and> quiet subscribing_env (take 0 (listeners store_ex))
   \<and> quiet subscribing_env (drop (Suc 0) (listeners store_ex))
   \<and> length (listeners store_ex) < 2"
    by (simp add: resolve_def Object_is_def store_ex_def quiet_def)
  moreover have "(\<forall>st pv. subscribing_env 1 st pv = [Subscribe 2])
     \<and> Some 2 \<notin> set (listeners store_ex) \<and> quiet subscribing_env [Some 2]"
    by (simp add: subscribing_env_def store_ex_def quiet_def)
  ultimately show "\<exists>s'. setState 2 subscribing_env (Value (VNum 7)) (Some True) store_ex = Some (Inr (), s')
      \<and> listeners s' = [Some 1, Some 2]
      \<and> calls s' = [(1, state s', VRef 0), (2, state s', VRef 0)]"
    using forEach_live_registry [of "Value (VNum 7)" store_ex "VNum 7" store_ex 0 1 subscribing_env 2 2 "Some True"]
    by (simp add: store_ex_def)
next
  have "resolve (Value (VNum 7)) store_two = (Inr (VNum 7), store_two)
   \<and> \<not> Object_is (state store_two) (VNum 7)
   \<and> 0 < length (listeners store_two) \<and> listeners store_two ! 0 = Some 1
   \<and> quiet unsubscribing_env (take 0 (listeners store_two))
   \<and> quiet unsubscribing_env (drop (Suc 0) (listeners store_two))
   \<and> length (listeners store_two) < 3"
    by (simp add: resolve_def Object_is_def store_two_def quiet_def unsubscribing_env_def)
  moreover have "\<forall>st pv. unsubscribing_env 1 st pv = [Unsubscribe 2]"
    by (simp add: unsubscribing_env_def)
  ultimately show "\<exists>s'. setState 3 unsubscribing_env (Value (VNum 7)) (Some True) store_two = Some (Inr (), s')
      \<and> listeners s' = [Some 1, None]
      \<and> calls s' = [(1, state s', VNum 0)]"
    using forEach_live_registry [of "Value (VNum 7)" store_two "VNum 7" store_two 0 1 unsubscribing_env 3 2 "Some True"]
    by (simp add: store_two_def Set_delete_def)
qed






text \<open>
  C10. For every initializer, when \<^verbatim>\<open>createStore\<close> returns, \<^verbatim>\<open>getState\<close> gives the
  value the initializer returned, and the calls made to listeners and the set of
  listeners are those the initializer's own calls left: the assignment of line 59
  notifies nobody. In particular an initializer that subscribes a listener and then
  writes a value other than \<^verbatim>\<open>undefined\<close> has that listener called once, at the
  write, with the state the write produced and \<^verbatim>\<open>undefined\<close> as the previous state;
  the state is then the value the initializer returns, not the one it wrote.
\<close>

theorem createStore_initializer_value:
  "(createStore n env h0 (acts, ret) = Some (Inr (), s) \<longrightarrow>
      (\<exists>s1 h. run n env acts (initial_store h0) = Some (Inr (), s1)
         \<and> ret (state s1) (heap s1) = (Inr (getState s), h)
         \<and> calls s = calls s1 \<and> listeners s = listeners s1))
   \<and> (quiet env [Some l] \<and> v0 \<noteq> VUndefined \<and> 0 < n
       \<and> ret (state (assign_state replace v0 (subscribe l (initial_store h0))))
             (heap (assign_state replace v0 (subscribe l (initial_store h0)))) = (Inr v, h) \<longrightarrow>
        createStore n env h0 ([Subscribe l, SetState (Value v0) replace], ret) =
          Some (Inr (),
            \<lparr>heap = h, state = v, listeners = [Some l],
             calls = [(l, state (assign_state replace v0 (subscribe l (initial_store h0))),
                       VUndefined)]\<rparr>))"
proof (intro conjI impI)
  assume a: "createStore n env h0 (acts, ret) = Some (Inr (), s)"
  then show "\<exists>s1 h. run n env acts (initial_store h0) = Some (Inr (), s1)
         \<and> ret (state s1) (heap s1) = (Inr (getState s), h)
         \<and> calls s = calls s1 \<and> listeners s = listeners s1"
    by (auto simp: createStore_def getState_def
        split: option.splits prod.splits sum.splits)
next
  let ?i = "subscribe l (initial_store h0)"
  let ?s0 = "assign_state replace v0 ?i"
  assume a: "quiet env [Some l] \<and> v0 \<noteq> VUndefined \<and> 0 < n
       \<and> ret (state ?s0) (heap ?s0) = (Inr v, h)"
  have i: "listeners ?i = [Some l]" "state ?i = VUndefined" "calls ?i = []"
    by (simp_all add: subscribe_def initial_store_def Set_add_def)
  have q: "quiet env (listeners ?i)" using a i by simp
  have r: "resolve (Value v0) ?i = (Inr v0, ?i)" by (simp add: resolve_def)
  have o: "\<not> Object_is (state ?i) v0" using a i by (auto simp: Object_is_def)
  have f: "length (listeners ?i) \<le> n" using a i by simp
  have w: "setState n env (Value v0) replace ?i =
     Some (Inr (), ?s0\<lparr>calls := [(l, state ?s0, VUndefined)]\<rparr>)"
    using setState_quiet [OF q r o f, of replace] i by simp
  have l0: "listeners ?s0 = [Some l]" using i by (simp add: assign_state_frame)
  have "run n env [Subscribe l, SetState (Value v0) replace] (initial_store h0) =
     Some (Inr (), ?s0\<lparr>calls := [(l, state ?s0, VUndefined)]\<rparr>)"
    using w by simp
  then show "createStore n env h0 ([Subscribe l, SetState (Value v0) replace], ret) =
          Some (Inr (),
            \<lparr>heap = h, state = v, listeners = [Some l],
             calls = [(l, state ?s0, VUndefined)]\<rparr>)"
    using a l0 by (simp add: createStore_def)
qed

theorem createStore_initializer_value_witness:
  "createStore 1 no_env [] ([Subscribe 1, SetState (Value (VNum 5)) None], returns_count0) =
     Some (Inr (),
       \<lparr>heap = [Map.empty(''count'' \<mapsto> VNum 0)], state = VRef 0, listeners = [Some 1],
        calls = [(1, VNum 5, VUndefined)]\<rparr>)
   \<and> (\<exists>s1 h. run 1 no_env [Subscribe 1, SetState (Value (VNum 5)) None] (initial_store [])
                 = Some (Inr (), s1)
         \<and> returns_count0 (state s1) (heap s1) = (Inr (VRef 0), h)
         \<and> calls s1 = [(1, VNum 5, VUndefined)] \<and> listeners s1 = [Some 1])"
proof -
  let ?acts = "[Subscribe 1, SetState (Value (VNum 5)) None]"
  let ?s = "\<lparr>heap = [Map.empty(''count'' \<mapsto> VNum 0)], state = VRef 0, listeners = [Some 1],
        calls = [(1, VNum 5, VUndefined)]\<rparr>"
  have s0: "assign_state None (VNum 5) (subscribe 1 (initial_store [])) =
      \<lparr>heap = [], state = VNum 5, listeners = [Some 1], calls = []\<rparr>"
    by (simp add: assign_state_def replaces_def subscribe_def initial_store_def Set_add_def)
  have h: "quiet no_env [Some 1] \<and> VNum 5 \<noteq> VUndefined \<and> 0 < (1::nat)
       \<and> returns_count0 (state (assign_state None (VNum 5) (subscribe 1 (initial_store []))))
            (heap (assign_state None (VNum 5) (subscribe 1 (initial_store []))))
          = (Inr (VRef 0), [Map.empty(''count'' \<mapsto> VNum 0)])"
    unfolding s0 by (simp add: quiet_def no_env_def returns_count0_def)
  note t = createStore_initializer_value [of 1 no_env "[]" ?acts returns_count0 ?s 1 "VNum 5"
        None "VRef 0" "[Map.empty(''count'' \<mapsto> VNum 0)]"]
  have 1: "createStore 1 no_env [] (?acts, returns_count0) = Some (Inr (), ?s)"
    using t h unfolding s0 by simp
  have 2: "\<exists>s1 h. run 1 no_env ?acts (initial_store []) = Some (Inr (), s1)
         \<and> returns_count0 (state s1) (heap s1) = (Inr (getState ?s), h)
         \<and> calls ?s = calls s1 \<and> listeners ?s = listeners s1"
    using t 1 by blast
  show ?thesis using 1 2 by (simp add: getState_def eq_commute)
qed

section \<open>The memoized selector and the hook\<close>




text \<open>
  When the record \<^verbatim>\<open>inst\<close> exists and holds a value, the first call of a memoizer
  built with a comparator returns that value and keeps it as the selection.
\<close>

lemma memoizedSelector_committed:
  "\<not> hasMemo m \<Longrightarrow> f snap (world m) = (Inr c, w) \<Longrightarrow>
   memoizedSelector (Some f) (Some eq) (Inst True v) snap m =
     (Inr v, m\<lparr>hasMemo := True, memoizedSnapshot := snap, memoizedSelection := v,
        world := w, invoked := invoked m @ [SelectorCall snap]\<rparr>)"
  by (simp add: memoizedSelector_def call_selector_def)

text \<open>
  C2, on the code. The cell \<^verbatim>\<open>instRef.current\<close> starts as \<^verbatim>\<open>undefined\<close>
  (\<^verbatim>\<open>useRef\<close> is called without an initial value) and line 91 tests it against
  \<^verbatim>\<open>null\<close>, so the instance record is never built. For every hook whose cell is
  \<^verbatim>\<open>undefined\<close>: a render leaves it so; the effect that should record the committed
  value raises a \<^verbatim>\<open>TypeError\<close> and records nothing; and the first call of a memoizer
  built with a comparator raises instead of returning a selection.
\<close>

theorem instance_record_never_built:
  "instRef_current h = InstUndefined \<Longrightarrow>
   instRef_current (snd (useSyncExternalStoreWithSelector recreate api selector isEqual h))
     = InstUndefined
   \<and> commit v h = (Inl TypeError, h)
   \<and> (\<exists>e. fst (useSyncExternalStoreWithSelector True api selector (Some eq) h) = Inl e)"
  by (auto simp: useSyncExternalStoreWithSelector_def useSyncExternalStore_def
      current_inst_def commit_def Let_def
      getSelection_def memoizedSelector_def call_selector_def new_memo_def
      split: prod.splits sum.splits option.splits)

theorem instance_record_never_built_witness:
  "useSyncExternalStoreWithSelector True
      \<lparr>heap = [], state = VNum 1, listeners = [], calls = []\<rparr>
      (Some echo_selector) (Some always_equal) (mount 0) =
     (Inl TypeError,
      \<lparr>instRef_current = InstUndefined,
       memoizer = \<lparr>hasMemo = True, memoizedSnapshot = VNum 1, memoizedSelection = VUndefined,
          world = 1, invoked = [SelectorCall (VNum 1)]\<rparr>\<rparr>)
   \<and> commit (VNum 1) (mount (0::nat)) = (Inl TypeError, mount 0)"
  using instance_record_never_built [of "mount (0::nat)" True
      "\<lparr>heap = [], state = VNum 1, listeners = [], calls = []\<rparr>"
      "Some echo_selector" "Some always_equal" "VNum 1" always_equal]
  by (simp add: mount_def useSyncExternalStoreWithSelector_def useSyncExternalStore_def
      current_inst_def getSelection_def getState_def memoizedSelector_def call_selector_def
      new_memo_def echo_selector_def)

text \<open>
  C3, as the code has it. For every call that is not the first, on a snapshot other
  than the memoized one, where the selector returns a candidate and the comparator
  holds of the memoized selection and the candidate: the call returns the memoized
  selection and leaves \<^verbatim>\<open>hasMemo\<close>, \<^verbatim>\<open>memoizedSnapshot\<close> and \<^verbatim>\<open>memoizedSelection\<close> as
  they were (line 131 returns before line 134), so the next call on the same snapshot
  calls the selector again.
\<close>

theorem memoizedSelector_equal_keeps_snapshot:
  "hasMemo m \<Longrightarrow> \<not> Object_is (memoizedSnapshot m) snap \<Longrightarrow>
   f snap (world m) = (Inr c, w1) \<Longrightarrow> eq (memoizedSelection m) c w1 = (Inr True, w2) \<Longrightarrow>
   memoizedSelector (Some f) (Some eq) inst snap m =
     (Inr (memoizedSelection m),
      m\<lparr>world := w2,
        invoked := invoked m @ [SelectorCall snap, IsEqualCall (memoizedSelection m) c]\<rparr>)
   \<and> (\<exists>cs. invoked (snd (memoizedSelector (Some f) (Some eq) inst snap
          (snd (memoizedSelector (Some f) (Some eq) inst snap m)))) =
        invoked m @ [SelectorCall snap, IsEqualCall (memoizedSelection m) c]
          @ SelectorCall snap # cs)"
  by (auto simp: memoizedSelector_def Let_def call_selector_def call_isEqual_def Object_is_def
      split: if_splits prod.splits sum.splits option.splits)

theorem memoizedSelector_equal_keeps_snapshot_witness:
  "memoizedSelector (Some zero_selector) (Some always_equal) InstUndefined (VRef 2) memo_ex =
     (Inr (VNum 0),
      \<lparr>hasMemo = True, memoizedSnapshot = VRef 1, memoizedSelection = VNum 0, world = 2,
       invoked = [SelectorCall (VRef 1), SelectorCall (VRef 2), IsEqualCall (VNum 0) (VNum 0)]\<rparr>)"
  using memoizedSelector_equal_keeps_snapshot
      [of memo_ex "VRef 2" zero_selector "VNum 0" 2 always_equal 2 InstUndefined]
  by (simp add: memo_ex_def zero_selector_def always_equal_def Object_is_def)

text \<open>
  The memoized snapshot is the one at address 1; a call on the snapshot at address 2,
  whose selection the comparator takes for equal, returns the memoized selection and
  does not make address 2 the memoized snapshot.
\<close>

theorem memoizedSelector_snapshot_counterexample:
  "fst (memoizedSelector (Some zero_selector) (Some always_equal) InstUndefined (VRef 2) memo_ex)
     = Inr (VNum 0)
   \<and> memoizedSnapshot (snd (memoizedSelector (Some zero_selector) (Some always_equal)
        InstUndefined (VRef 2) memo_ex)) \<noteq> VRef 2"
  by (simp add: memoizedSelector_def call_selector_def call_isEqual_def zero_selector_def
      always_equal_def memo_ex_def Object_is_def Let_def)

text \<open>
  C4, on the first call. When the selector raises on the first call of a memoizer,
  the error reaches the caller, but \<^verbatim>\<open>hasMemo\<close> and \<^verbatim>\<open>memoizedSnapshot\<close> were assigned
  before the selector was called (lines 108 and 109) and stay assigned; the next call
  on the same snapshot then returns the selection that was never assigned, without
  calling the selector.
\<close>

theorem memoizedSelector_first_call_raise:
  "\<not> hasMemo m \<Longrightarrow> f snap (world m) = (Inl e, w) \<Longrightarrow>
   memoizedSelector (Some f) isEqual inst snap m =
     (Inl e, m\<lparr>hasMemo := True, memoizedSnapshot := snap, world := w,
               invoked := invoked m @ [SelectorCall snap]\<rparr>)
   \<and> memoizedSelector (Some f) isEqual inst snap
        (m\<lparr>hasMemo := True, memoizedSnapshot := snap, world := w,
           invoked := invoked m @ [SelectorCall snap]\<rparr>) =
     (Inr (memoizedSelection m),
      m\<lparr>hasMemo := True, memoizedSnapshot := snap, world := w,
        invoked := invoked m @ [SelectorCall snap]\<rparr>)"
  by (simp add: memoizedSelector_def call_selector_def Object_is_def)

theorem memoizedSelector_first_call_raise_witness:
  "memoizedSelector (Some raising_selector) None InstUndefined (VRef 0) (new_memo 0 []) =
     (Inl (Thrown (VStr ''boom'')),
      \<lparr>hasMemo = True, memoizedSnapshot = VRef 0, memoizedSelection = VUndefined, world = 1,
       invoked = [SelectorCall (VRef 0)]\<rparr>)
   \<and> memoizedSelector (Some raising_selector) None InstUndefined (VRef 0)
      \<lparr>hasMemo = True, memoizedSnapshot = VRef 0, memoizedSelection = VUndefined, world = 1,
       invoked = [SelectorCall (VRef 0)]\<rparr> =
     (Inr VUndefined,
      \<lparr>hasMemo = True, memoizedSnapshot = VRef 0, memoizedSelection = VUndefined, world = 1,
       invoked = [SelectorCall (VRef 0)]\<rparr>)"
  using memoizedSelector_first_call_raise
      [of "new_memo 0 []" raising_selector "VRef 0" "Thrown (VStr ''boom'')" 1 None InstUndefined]
  by (simp add: new_memo_def raising_selector_def)

text \<open>
  On a later call the assignments come after the calls of the selector and of the
  comparator (lines 134 and 135), and a raise leaves the three variables as they were.
\<close>

lemma memoizedSelector_later_raise:
  "hasMemo m \<Longrightarrow> memoizedSelector selector isEqual inst snap m = (Inl e, m') \<Longrightarrow>
   hasMemo m' = hasMemo m \<and> memoizedSnapshot m' = memoizedSnapshot m
   \<and> memoizedSelection m' = memoizedSelection m"
  by (auto simp: memoizedSelector_def Let_def call_selector_def call_isEqual_def
      split: if_splits prod.splits sum.splits option.splits)

text \<open>
  C6, on the code. Called with no argument, the callable of \<^verbatim>\<open>createImpl\<close> passes
  \<^verbatim>\<open>undefined\<close> for the selector, and line 110 calls it: for every store, the render
  that builds the memoizer raises a \<^verbatim>\<open>TypeError\<close> instead of returning the state.
\<close>

theorem useBoundStore_no_selector:
  "fst (useBoundStore api True None None h) = Inl TypeError"
  by (simp add: useBoundStore_def useStore_def useSyncExternalStoreWithSelector_def
      useSyncExternalStore_def Let_def getSelection_def memoizedSelector_def
      call_selector_def new_memo_def)



end
